theory Spec2Isabelle
  imports Main
begin

section \<open>Strings\<close>

text \<open>
  Text is modelled as \<^typ>\<open>string\<close> (a list of characters).  Two characters matter to
  the line transformer: line feed (\<open>\n\<close>) and carriage return (\<open>\r\<close>).
\<close>

abbreviation LF :: char where
  "LF \<equiv> CHR 0x0A"

abbreviation CR :: char where
  "CR \<equiv> CHR 0x0D"

section \<open>RxSocket: the line transformer (\<open>lines$\<close>)\<close>

subsection \<open>The regular expression \<open>/[^\n]+(?:\r?\n|$)/g\<close>\<close>

text \<open>
  \<open>first_some f xs\<close> is the backtracking order of the matcher: the alternatives \<open>xs\<close>
  are tried from left to right and the first one that succeeds is taken.
\<close>

fun first_some :: "('a \<Rightarrow> 'b option) \<Rightarrow> 'a list \<Rightarrow> 'b option" where
  "first_some f [] = None"
| "first_some f (x # xs) = (case f x of Some y \<Rightarrow> Some y | None \<Rightarrow> first_some f xs)"

text \<open>
  The group \<open>(?:\r?\n|$)\<close> tried at the head of the remaining input; the result is the
  number of characters it consumes.  The first alternative takes an optional \<open>\r\<close>
  (greedily, giving it back if no \<open>\n\<close> follows) and then a \<open>\n\<close>; the second
  alternative is the end of the input (the expression has no \<open>m\<close> flag).
\<close>

fun match_terminator :: "string \<Rightarrow> nat option" where
  "match_terminator [] = Some 0"
| "match_terminator (c # cs) =
     (if c = CR \<and> cs \<noteq> [] \<and> hd cs = LF then Some 2
      else if c = LF then Some 1
      else None)"

text \<open>
  The whole expression tried at the head of \<open>s\<close>: \<open>[^\n]+\<close> is greedy, so the longest
  run of characters other than \<open>\n\<close> is tried first and shorter runs (down to one
  character) after it.  The result is the length of the match.
\<close>

definition match_here :: "string \<Rightarrow> nat option" where
  "match_here s =
     (let n = length (takeWhile (\<lambda>c. c \<noteq> LF) s)
      in first_some (\<lambda>k. map_option (\<lambda>e. k + e) (match_terminator (drop k s)))
           (rev [1..<Suc n]))"

lemma dropWhile_LF_cases:
  "dropWhile (\<lambda>c. c \<noteq> LF) s = []
   \<or> (\<exists>rest. dropWhile (\<lambda>c. c \<noteq> LF) s = LF # rest)"
  by (induction s) auto

lemma drop_run_cases:
  "drop (length (takeWhile (\<lambda>c. c \<noteq> LF) s)) s = []
   \<or> (\<exists>rest. drop (length (takeWhile (\<lambda>c. c \<noteq> LF) s)) s = LF # rest)"
  using dropWhile_LF_cases [of s] by (simp add: dropWhile_eq_drop)

lemma match_here_run:
  "match_here s =
     (let n = length (takeWhile (\<lambda>c. c \<noteq> LF) s)
      in if n = 0 then None else if n < length s then Some (Suc n) else Some n)"
proof -
  define n where "n = length (takeWhile (\<lambda>c. c \<noteq> LF) s)"
  have n_le: "n \<le> length s"
    unfolding n_def by (rule length_takeWhile_le)
  show ?thesis
  proof (cases "n = 0")
    case True
    then show ?thesis
      by (simp add: match_here_def n_def [symmetric])
  next
    case False
    then have upt: "rev [1..<Suc n] = n # rev [1..<n]"
      by simp
    from drop_run_cases [of s]
    have "drop n s = [] \<or> (\<exists>rest. drop n s = LF # rest)"
      by (simp add: n_def)
    then show ?thesis
    proof
      assume e: "drop n s = []"
      then have "\<not> n < length s" by simp
      with e False upt show ?thesis
        by (simp add: match_here_def n_def [symmetric])
    next
      assume "\<exists>rest. drop n s = LF # rest"
      then obtain rest where e: "drop n s = LF # rest" ..
      then have "n < length s"
        by (cases "n < length s") simp_all
      with e False upt show ?thesis
        by (simp add: match_here_def n_def [symmetric])
    qed
  qed
qed

lemma match_here_pos:
  "match_here s = Some k \<Longrightarrow> 0 < k \<and> s \<noteq> []"
  by (auto simp: match_here_run Let_def split: if_splits)

text \<open>
  \<open>String.prototype.match\<close> with the \<open>g\<close> flag: every match, from left to right.  Where
  the expression does not match at the current position the search moves one character
  on; after a match it resumes behind the match.
\<close>

function match_all :: "string \<Rightarrow> string list" where
  "match_all s =
     (if s = [] then []
      else (case match_here s of
              None \<Rightarrow> match_all (tl s)
            | Some k \<Rightarrow> take k s # match_all (drop k s)))"
  by pat_completeness auto
termination
proof (relation "measure length")
  show "wf (measure length)" by simp
next
  fix s :: string
  assume "s \<noteq> []" and "match_here s = None"
  then show "(tl s, s) \<in> measure length" by (cases s) simp_all
next
  fix s :: string and k
  assume "s \<noteq> []" and "match_here s = Some k"
  then have "0 < k" by (simp add: match_here_pos)
  with \<open>s \<noteq> []\<close> show "(drop k s, s) \<in> measure length" by simp
qed

declare match_all.simps [simp del]

lemma match_all_Nil: "match_all [] = []"
  by (simp add: match_all.simps)

lemma match_all_blank: "match_all (LF # rest) = match_all rest"
proof -
  have "match_here (LF # rest) = None"
    by (simp add: match_here_run)
  then show ?thesis
    by (simp add: match_all.simps [of "LF # rest"])
qed

lemma takeWhile_run: "LF \<notin> set r \<Longrightarrow> takeWhile (\<lambda>c. c \<noteq> LF) (r @ LF # rest) = r"
  by (induction r) auto

lemma takeWhile_tail: "LF \<notin> set r \<Longrightarrow> takeWhile (\<lambda>c. c \<noteq> LF) r = r"
  by (induction r) auto

lemma match_all_line:
  assumes "r \<noteq> []" and "LF \<notin> set r"
  shows "match_all (r @ LF # rest) = (r @ [LF]) # match_all rest"
proof -
  from assms have "match_here (r @ LF # rest) = Some (Suc (length r))"
    by (simp add: match_here_run takeWhile_run)
  with assms show ?thesis
    by (simp add: match_all.simps [of "r @ LF # rest"])
qed

lemma match_all_tail:
  assumes "r \<noteq> []" and "LF \<notin> set r"
  shows "match_all r = [r]"
proof -
  from assms have "match_here r = Some (length r)"
    by (simp add: match_here_run takeWhile_tail)
  with assms show ?thesis
    by (simp add: match_all.simps [of r] match_all_Nil)
qed

text \<open>
  Every string is empty, or starts with \<open>\n\<close>, or starts with a non-empty run without
  \<open>\n\<close> that is followed by \<open>\n\<close>, or is such a run.  This is the induction the matcher
  follows.
\<close>

lemma line_induct [case_names Empty Blank Line Tail]:
  assumes empty: "P []"
    and blank: "\<And>rest. P rest \<Longrightarrow> P (LF # rest)"
    and line: "\<And>r rest. r \<noteq> [] \<Longrightarrow> LF \<notin> set r \<Longrightarrow> P rest \<Longrightarrow> P (r @ LF # rest)"
    and tail: "\<And>r. r \<noteq> [] \<Longrightarrow> LF \<notin> set r \<Longrightarrow> P r"
  shows "P (s :: string)"
proof (induction s rule: length_induct)
  case (1 s)
  define r where "r = takeWhile (\<lambda>c. c \<noteq> LF) s"
  define t where "t = dropWhile (\<lambda>c. c \<noteq> LF) s"
  have s: "s = r @ t"
    by (simp add: r_def t_def)
  have r: "LF \<notin> set r"
    unfolding r_def by (auto dest: set_takeWhileD)
  show ?case
  proof (cases t)
    case Nil
    with s r empty tail show ?thesis
      by (cases "r = []") simp_all
  next
    case (Cons a rest)
    have "t = [] \<or> (\<exists>rest. t = LF # rest)"
      unfolding t_def by (rule dropWhile_LF_cases)
    with Cons have a: "a = LF"
      by simp
    have "length rest < length s"
      by (simp add: s Cons)
    with 1 have "P rest"
      by simp
    with s r a Cons blank line show ?thesis
      by (cases "r = []") simp_all
  qed
qed

subsection \<open>The accumulator of \<open>scan\<close>\<close>

record LineBuffer =
  complete :: "string list"
  incomplete :: string

text \<open>\<open>str.endsWith(suffix)\<close>.\<close>

definition endsWith :: "string \<Rightarrow> string \<Rightarrow> bool" where
  "endsWith str suffix =
     (length suffix \<le> length str \<and> drop (length str - length suffix) str = suffix)"

text \<open>
  \<open>str.replace(/\r?\n$/g, '')\<close>: the search goes from left to right for the first
  position where \<open>\r?\n\<close> matches and ends the string; the match is replaced by the
  empty string.  Since the match ends the string there is at most one.
\<close>

fun trimTerminator :: "string \<Rightarrow> string" where
  "trimTerminator [] = []"
| "trimTerminator (c # cs) =
     (if (c = CR \<and> cs = [LF]) \<or> (c = LF \<and> cs = []) then []
      else c # trimTerminator cs)"

text \<open>
  The callback given to \<open>scan\<close>, from the text of the chunk on (the conversion
  \<open>data.toString()\<close> of its first line is added with the chunks below).
  \<open>lines.slice(0, lines.length - 1)\<close> is \<open>butlast\<close> (it is only reached with \<open>lines\<close>
  non-empty), \<open>lines[lines.length - 1]\<close> is \<open>last\<close>.
\<close>

definition scan_step :: "LineBuffer \<Rightarrow> string \<Rightarrow> LineBuffer" where
  "scan_step buffer data =
     (let incomplete' = incomplete buffer @ data;
          lines = match_all incomplete'
      in if lines = [] then \<lparr>complete = [], incomplete = []\<rparr>
         else if endsWith (last lines) [LF]
           then \<lparr>complete = map trimTerminator lines, incomplete = []\<rparr>
           else \<lparr>complete = map trimTerminator (butlast lines), incomplete = last lines\<rparr>)"

text \<open>The seed of \<open>scan\<close>.\<close>

definition seed :: LineBuffer where
  "seed = \<lparr>complete = [], incomplete = []\<rparr>"

text \<open>
  The operator \<open>scan(f, seed)\<close> on a finite stream: it emits every new accumulator (not
  the seed).  \<open>flatMap\<close> with a synchronous inner stream (\<open>Rx.from\<close> of an array) emits
  the elements of each array in order, so a stream of arrays is flattened by
  \<^const>\<open>concat\<close>.
\<close>

fun scan :: "('b \<Rightarrow> 'a \<Rightarrow> 'b) \<Rightarrow> 'b \<Rightarrow> 'a list \<Rightarrow> 'b list" where
  "scan f acc [] = []"
| "scan f acc (x # xs) = f acc x # scan f (f acc x) xs"

text \<open>
  \<open>lines$\<close>, as a function of the texts of the chunks that \<open>data$\<close> delivers: each
  chunk after \<open>data.toString()\<close>, which is added below.
\<close>

definition lines_stream :: "string list \<Rightarrow> string list" where
  "lines_stream chunks = concat (map complete (scan scan_step seed chunks))"

text \<open>The accumulator after all chunks: \<open>scan\<close>'s last state.\<close>

definition buffer_after :: "string list \<Rightarrow> LineBuffer" where
  "buffer_after chunks = foldl scan_step seed chunks"

subsection \<open>The accumulator as a function of the working string\<close>

lemma scan_step_working:
  "scan_step buffer data = scan_step seed (incomplete buffer @ data)"
  by (simp add: scan_step_def seed_def)

lemma endsWith_LF: "endsWith s [LF] \<longleftrightarrow> s \<noteq> [] \<and> last s = LF"
proof (cases s rule: rev_cases)
  case Nil
  then show ?thesis by (simp add: endsWith_def)
next
  case (snoc ys y)
  then show ?thesis by (auto simp: endsWith_def)
qed

lemma seed_fields [simp]: "complete seed = []" "incomplete seed = []"
  by (simp_all add: seed_def)

lemma scan_seed_Nil: "scan_step seed [] = seed"
  by (simp add: scan_step_def seed_def match_all_Nil)

lemma scan_seed_blank: "scan_step seed (LF # rest) = scan_step seed rest"
  by (simp add: scan_step_def seed_def match_all_blank)

lemma scan_seed_tail:
  assumes "r \<noteq> []" and "LF \<notin> set r"
  shows "scan_step seed r = \<lparr>complete = [], incomplete = r\<rparr>"
proof -
  from assms have mem: "last r \<in> set r"
    by simp
  have "last r \<noteq> LF"
  proof
    assume eq: "last r = LF"
    from mem have "LF \<in> set r"
      unfolding eq .
    with assms show False
      by simp
  qed
  then have "\<not> endsWith r [LF]"
    by (simp add: endsWith_LF)
  moreover from assms have "match_all r = [r]"
    by (rule match_all_tail)
  ultimately show ?thesis
    by (simp add: scan_step_def seed_def)
qed

lemma scan_seed_line:
  assumes "r \<noteq> []" and "LF \<notin> set r"
  shows "scan_step seed (r @ LF # rest) =
     \<lparr>complete = trimTerminator (r @ [LF]) # complete (scan_step seed rest),
      incomplete = incomplete (scan_step seed rest)\<rparr>"
proof (cases "match_all rest")
  case Nil
  with assms show ?thesis
    by (simp add: scan_step_def seed_def match_all_line endsWith_LF)
next
  case (Cons m ms)
  with assms show ?thesis
    by (simp add: scan_step_def seed_def match_all_line Let_def)
qed

lemma scan_seed_LF_free:
  "LF \<notin> set r \<Longrightarrow> scan_step seed r = \<lparr>complete = [], incomplete = r\<rparr>"
proof (cases "r = []")
  case True
  then show ?thesis by (simp add: scan_step_def seed_def match_all_Nil)
next
  case False
  then show "LF \<notin> set r \<Longrightarrow> ?thesis" by (simp add: scan_seed_tail)
qed

lemma incomplete_LF_free: "LF \<notin> set (incomplete (scan_step seed s))"
  by (induction s rule: line_induct)
    (simp_all add: scan_seed_Nil scan_seed_blank scan_seed_line scan_seed_tail)

lemma complete_append:
  "complete (scan_step seed (a @ b)) =
     complete (scan_step seed a) @ complete (scan_step seed (incomplete (scan_step seed a) @ b))"
proof (induction a rule: line_induct)
  case Empty
  show ?case by (simp add: scan_seed_Nil)
next
  case (Blank rest)
  then show ?case by (simp add: scan_seed_blank)
next
  case (Line r rest)
  then show ?case by (simp add: scan_seed_line)
next
  case (Tail r)
  then show ?case by (simp add: scan_seed_tail)
qed

lemma incomplete_append:
  "incomplete (scan_step seed (a @ b)) =
     incomplete (scan_step seed (incomplete (scan_step seed a) @ b))"
proof (induction a rule: line_induct)
  case Empty
  show ?case by (simp add: scan_seed_Nil)
next
  case (Blank rest)
  then show ?case by (simp add: scan_seed_blank)
next
  case (Line r rest)
  then show ?case by (simp add: scan_seed_line)
next
  case (Tail r)
  then show ?case by (simp add: scan_seed_tail)
qed

text \<open>
  From any accumulator whose \<open>incomplete\<close> holds no \<open>\n\<close> (every accumulator that
  \<open>scan\<close> reaches), the lines emitted for a sequence of chunks are the lines of one step
  on the remainder followed by all the chunks, and so is the remainder left at the end.
\<close>

lemma lines_from_buffer:
  "LF \<notin> set (incomplete buffer) \<Longrightarrow>
     concat (map complete (scan scan_step buffer chunks)) =
       complete (scan_step seed (incomplete buffer @ concat chunks))"
proof (induction chunks arbitrary: buffer)
  case Nil
  then show ?case by (simp add: scan_seed_LF_free)
next
  case (Cons c cs)
  have step: "scan_step buffer c = scan_step seed (incomplete buffer @ c)"
    by (rule scan_step_working)
  have "LF \<notin> set (incomplete (scan_step buffer c))"
    by (simp add: step incomplete_LF_free)
  then have "concat (map complete (scan scan_step (scan_step buffer c) cs)) =
      complete (scan_step seed (incomplete (scan_step buffer c) @ concat cs))"
    by (rule Cons.IH)
  then show ?case
    using complete_append [of "incomplete buffer @ c" "concat cs"]
    by (simp add: step)
qed

lemma incomplete_from_buffer:
  "LF \<notin> set (incomplete buffer) \<Longrightarrow>
     incomplete (foldl scan_step buffer chunks) =
       incomplete (scan_step seed (incomplete buffer @ concat chunks))"
proof (induction chunks arbitrary: buffer)
  case Nil
  then show ?case by (simp add: scan_seed_LF_free)
next
  case (Cons c cs)
  have step: "scan_step buffer c = scan_step seed (incomplete buffer @ c)"
    by (rule scan_step_working)
  have "LF \<notin> set (incomplete (scan_step buffer c))"
    by (simp add: step incomplete_LF_free)
  then have "incomplete (foldl scan_step (scan_step buffer c) cs) =
      incomplete (scan_step seed (incomplete (scan_step buffer c) @ concat cs))"
    by (rule Cons.IH)
  then show ?case
    using incomplete_append [of "incomplete buffer @ c" "concat cs"]
    by (simp add: step)
qed

lemma lines_stream_payload:
  "lines_stream chunks = complete (scan_step seed (concat chunks))"
  using lines_from_buffer [of seed chunks] by (simp add: lines_stream_def)

lemma buffer_after_payload:
  "incomplete (buffer_after chunks) = incomplete (scan_step seed (concat chunks))"
  using incomplete_from_buffer [of seed chunks] by (simp add: buffer_after_def)

subsection \<open>Chunks as the socket delivers them\<close>

text \<open>
  \<open>data$\<close> passes on what the socket's \<open>data\<close> event gives: a \<open>Buffer\<close> of bytes (no
  encoding is ever set on the socket) or, by its type, a string.  Text is represented
  here by its UTF-8 bytes, so that a \<open>Buffer\<close> and a string are both lists of
  \<^typ>\<open>char\<close>; the line transformer and the parser look only at ASCII characters, which
  are single bytes that occur in no longer UTF-8 sequence.
\<close>

datatype socket_data = Text string | Buffer string

text \<open>The replacement character U+FFFD, in UTF-8.\<close>

definition replacement :: string where
  "replacement = [CHR 0xEF, CHR 0xBF, CHR 0xBD]"

text \<open>
  For a lead byte: the number of continuation bytes of its sequence and the range of
  the first of them (the others range over \<open>80..BF\<close>); \<open>None\<close> for a byte that starts
  no sequence.
\<close>

definition sequence_of :: "nat \<Rightarrow> (nat \<times> nat \<times> nat) option" where
  "sequence_of b =
     (if 0xC2 \<le> b \<and> b \<le> 0xDF then Some (1, 0x80, 0xBF)
      else if b = 0xE0 then Some (2, 0xA0, 0xBF)
      else if b = 0xED then Some (2, 0x80, 0x9F)
      else if 0xE1 \<le> b \<and> b \<le> 0xEF then Some (2, 0x80, 0xBF)
      else if b = 0xF0 then Some (3, 0x90, 0xBF)
      else if b = 0xF4 then Some (3, 0x80, 0x8F)
      else if 0xF1 \<le> b \<and> b \<le> 0xF3 then Some (3, 0x80, 0xBF)
      else None)"

text \<open>
  How many of the \<open>n\<close> continuation bytes that a sequence needs stand at the head of
  the input, the first of them in the range from \<open>lo\<close> to \<open>hi\<close>.
\<close>

fun accepted :: "nat \<Rightarrow> nat \<Rightarrow> nat \<Rightarrow> string \<Rightarrow> nat" where
  "accepted 0 lo hi bs = 0"
| "accepted (Suc n) lo hi [] = 0"
| "accepted (Suc n) lo hi (b # bs) =
     (if lo \<le> (of_char b :: nat) \<and> (of_char b :: nat) \<le> hi
      then Suc (accepted n 0x80 0xBF bs) else 0)"

lemma accepted_le_length: "accepted n lo hi bs \<le> length bs"
  by (induction n lo hi bs rule: accepted.induct) simp_all

text \<open>
  \<open>buffer.toString()\<close>: UTF-8 decoding.  A complete sequence is a character and is
  kept; a byte that starts no sequence, and a sequence that is cut short (by the end of
  the buffer or by a byte that cannot continue it), becomes one replacement character,
  and decoding goes on behind the bytes accepted so far.
\<close>

function utf8_decode :: "string \<Rightarrow> string" where
  "utf8_decode [] = []"
| "utf8_decode (b # bs) =
     (if (of_char b :: nat) < 0x80 then b # utf8_decode bs
      else (case sequence_of (of_char b) of
              None \<Rightarrow> replacement @ utf8_decode bs
            | Some (n, lo, hi) \<Rightarrow>
                (if accepted n lo hi bs = n
                 then (b # take n bs) @ utf8_decode (drop n bs)
                 else replacement @ utf8_decode (drop (accepted n lo hi bs) bs))))"
  by pat_completeness auto
termination
  by (relation "measure length") simp_all

text \<open>A buffer that holds whole characters only.\<close>

function well_formed :: "string \<Rightarrow> bool" where
  "well_formed [] = True"
| "well_formed (b # bs) =
     (if (of_char b :: nat) < 0x80 then well_formed bs
      else (case sequence_of (of_char b) of
              None \<Rightarrow> False
            | Some (n, lo, hi) \<Rightarrow> accepted n lo hi bs = n \<and> well_formed (drop n bs)))"
  by pat_completeness auto
termination
  by (relation "measure length") simp_all

text \<open>\<open>data.toString()\<close>: a string is itself, a \<open>Buffer\<close> is decoded.\<close>

fun toString :: "socket_data \<Rightarrow> string" where
  "toString (Text s) = s"
| "toString (Buffer bs) = utf8_decode bs"

text \<open>
  The callback given to \<open>scan\<close> as the source has it, with the conversion of the chunk
  in its first line, and \<open>lines$\<close> as a function of the chunks that \<open>data$\<close> delivers.
\<close>

definition scan_data :: "LineBuffer \<Rightarrow> socket_data \<Rightarrow> LineBuffer" where
  "scan_data buffer data = scan_step buffer (toString data)"

definition lines_of_data :: "socket_data list \<Rightarrow> string list" where
  "lines_of_data chunks = concat (map complete (scan scan_data seed chunks))"

lemma scan_map: "scan (\<lambda>acc x. f acc (g x)) acc xs = scan f acc (map g xs)"
  by (induction xs arbitrary: acc) simp_all

lemma lines_of_data_text: "lines_of_data chunks = lines_stream (map toString chunks)"
proof -
  have callback: "scan_data = (\<lambda>buffer data. scan_step buffer (toString data))"
    by (intro ext) (simp add: scan_data_def)
  have "scan scan_data seed chunks = scan scan_step seed (map toString chunks)"
    unfolding callback by (rule scan_map)
  then show ?thesis
    by (simp add: lines_of_data_def lines_stream_def)
qed

lemma accepted_append:
  "accepted n lo hi bs = n \<Longrightarrow> accepted n lo hi (bs @ cs) = n"
  by (induction n lo hi bs rule: accepted.induct) (simp_all split: if_splits)

lemma well_formed_decode_append:
  "well_formed a \<Longrightarrow> utf8_decode (a @ b) = a @ utf8_decode b"
proof (induction a rule: well_formed.induct)
  case 1
  show ?case by simp
next
  case (2 c cs)
  show ?case
  proof (cases "(of_char c :: nat) < 0x80")
    case True
    with 2 show ?thesis by simp
  next
    case False
    with "2.prems" obtain n lo hi where seq: "sequence_of (of_char c) = Some (n, lo, hi)"
      and full: "accepted n lo hi cs = n" and rest: "well_formed (drop n cs)"
      by (auto split: option.splits)
    from full have len: "n \<le> length cs"
      using accepted_le_length [of n lo hi cs] by simp
    from "2.IH"(2) [OF False seq refl refl] rest
    have "utf8_decode (drop n cs @ b) = drop n cs @ utf8_decode b"
      by simp
    with False seq full len show ?thesis
      by (simp add: accepted_append)
  qed
qed

lemma well_formed_decode: "well_formed a \<Longrightarrow> utf8_decode a = a"
  using well_formed_decode_append [of a "[]"] by simp

lemma decode_concat:
  "list_all well_formed buffers \<Longrightarrow>
     utf8_decode (concat buffers) = concat (map utf8_decode buffers)"
proof (induction buffers)
  case Nil
  show ?case by simp
next
  case (Cons a as)
  then show ?case
    by (simp add: well_formed_decode_append well_formed_decode)
qed

lemma lines_stream_concat: "lines_stream chunks = lines_stream [concat chunks]"
  by (simp add: lines_stream_payload)

lemma map_toString_Buffer: "map (toString \<circ> Buffer) buffers = map utf8_decode buffers"
  by (induction buffers) simp_all

lemma map_toString_Text: "map (toString \<circ> Text) texts = texts"
  by (induction texts) simp_all

subsection \<open>Chunk boundaries\<close>

text \<open>
  The payload of the letter e with an acute accent and \<open>\n\<close>, in UTF-8 the bytes
  \<open>C3 A9 0A\<close>, cut between the two bytes of the letter: each half of the character is decoded by itself into a
  replacement character, and the line emitted is two replacement characters, not the
  letter that the whole payload gives.
\<close>

theorem lines_chunking_counterexample:
  "lines_of_data [Buffer [CHR 0xC3], Buffer [CHR 0xA9, LF]] =
     [[CHR 0xEF, CHR 0xBF, CHR 0xBD, CHR 0xEF, CHR 0xBF, CHR 0xBD]]
   \<and> lines_of_data [Buffer [CHR 0xC3, CHR 0xA9, LF]] = [[CHR 0xC3, CHR 0xA9]]
   \<and> lines_of_data [Buffer [CHR 0xC3], Buffer [CHR 0xA9, LF]] \<noteq>
       lines_of_data [Buffer (concat [[CHR 0xC3], [CHR 0xA9, LF]])]"
  by code_simp

text \<open>
  C1 (amended): for every payload and every way of cutting it into chunks that cuts no
  character in two (every \<open>Buffer\<close> chunk holds whole UTF-8 characters; a cut between a
  \<open>\r\<close> and the \<open>\n\<close> that follows it is such a cut), \<open>lines$\<close> emits for the chunks,
  fed one at a time, the same lines in the same order as for the whole payload fed as a
  single chunk.  The same holds for every cut when the chunks arrive as strings.
\<close>

theorem lines_chunking:
  "((\<forall>b \<in> set buffers. well_formed b) \<longrightarrow>
      lines_of_data (map Buffer buffers) = lines_of_data [Buffer (concat buffers)])
   \<and> lines_of_data (map Text texts) = lines_of_data [Text (concat texts)]"
proof
  show "(\<forall>b \<in> set buffers. well_formed b) \<longrightarrow>
      lines_of_data (map Buffer buffers) = lines_of_data [Buffer (concat buffers)]"
  proof
    assume "\<forall>b \<in> set buffers. well_formed b"
    then have "list_all well_formed buffers"
      by (simp add: list_all_iff)
    then have "utf8_decode (concat buffers) = concat (map utf8_decode buffers)"
      by (rule decode_concat)
    then show "lines_of_data (map Buffer buffers) = lines_of_data [Buffer (concat buffers)]"
      using lines_stream_concat [of "map utf8_decode buffers"]
      by (simp add: lines_of_data_text map_toString_Buffer)
  qed
  show "lines_of_data (map Text texts) = lines_of_data [Text (concat texts)]"
    using lines_stream_concat [of texts]
    by (simp add: lines_of_data_text map_toString_Text)
qed

text \<open>
  The payload of \<open>a\r\n\<close>, the letter e with an acute accent, and \<open>\n\<close>, cut
  inside the first terminator and before the second one, as buffers and as strings.
\<close>

theorem lines_chunking_witness:
  "well_formed [CHR ''a'', CR] \<and> well_formed [LF, CHR 0xC3, CHR 0xA9] \<and> well_formed [LF]
   \<and> lines_of_data (map Buffer [[CHR ''a'', CR], [LF, CHR 0xC3, CHR 0xA9], [LF]]) =
       lines_of_data [Buffer (concat [[CHR ''a'', CR], [LF, CHR 0xC3, CHR 0xA9], [LF]])]
   \<and> lines_of_data (map Text [[CHR ''a'', CR], [LF, CHR 0xC3, CHR 0xA9], [LF]]) =
       lines_of_data [Text (concat [[CHR ''a'', CR], [LF, CHR 0xC3, CHR 0xA9], [LF]])]
   \<and> lines_of_data (map Buffer [[CHR ''a'', CR], [LF, CHR 0xC3, CHR 0xA9], [LF]]) =
       [''a'', [CHR 0xC3, CHR 0xA9]]"
proof -
  have whole: "well_formed [CHR ''a'', CR]" "well_formed [LF, CHR 0xC3, CHR 0xA9]"
    "well_formed [LF]"
    by code_simp+
  then have each: "\<forall>b \<in> set [[CHR ''a'', CR], [LF, CHR 0xC3, CHR 0xA9], [LF]]. well_formed b"
    by simp
  have emitted: "lines_of_data (map Buffer [[CHR ''a'', CR], [LF, CHR 0xC3, CHR 0xA9], [LF]]) =
       [''a'', [CHR 0xC3, CHR 0xA9]]"
    by code_simp
  from lines_chunking
    [of "[[CHR ''a'', CR], [LF, CHR 0xC3, CHR 0xA9], [LF]]"
        "[[CHR ''a'', CR], [LF, CHR 0xC3, CHR 0xA9], [LF]]"] each
  have "lines_of_data (map Buffer [[CHR ''a'', CR], [LF, CHR 0xC3, CHR 0xA9], [LF]]) =
       lines_of_data [Buffer (concat [[CHR ''a'', CR], [LF, CHR 0xC3, CHR 0xA9], [LF]])]"
    and "lines_of_data (map Text [[CHR ''a'', CR], [LF, CHR 0xC3, CHR 0xA9], [LF]]) =
       lines_of_data [Text (concat [[CHR ''a'', CR], [LF, CHR 0xC3, CHR 0xA9], [LF]])]"
    by blast+
  with whole emitted show ?thesis
    by (intro conjI)
qed

subsection \<open>What the accumulator accounts for\<close>

text \<open>
  The text that the lines emitted so far stand for: each line followed by its terminator.
\<close>

definition restored :: "string list \<Rightarrow> string list \<Rightarrow> string" where
  "restored lines terminators = concat (map2 (@) lines terminators)"

text \<open>
  A received text without the \<open>\n\<close> of its empty lines: a \<open>\n\<close> is dropped when it
  stands at the very start or directly behind another \<open>\n\<close>.  The flag says whether the
  position is the start of a line.
\<close>

fun drop_blank :: "bool \<Rightarrow> string \<Rightarrow> string" where
  "drop_blank line_start [] = []"
| "drop_blank line_start (c # cs) =
     (if c = LF then (if line_start then drop_blank True cs else LF # drop_blank True cs)
      else c # drop_blank False cs)"

definition without_blank_lines :: "string \<Rightarrow> string" where
  "without_blank_lines s = drop_blank True s"

lemma drop_blank_LF_free: "LF \<notin> set r \<Longrightarrow> drop_blank b r = r"
  by (induction r arbitrary: b) auto

lemma drop_blank_line:
  "r \<noteq> [] \<Longrightarrow> LF \<notin> set r \<Longrightarrow> drop_blank b (r @ LF # rest) = r @ LF # drop_blank True rest"
proof (induction r arbitrary: b)
  case Nil
  then show ?case by simp
next
  case (Cons c cs)
  then show ?case by (cases "cs = []") auto
qed

lemma trimTerminator_restore:
  "LF \<notin> set r \<Longrightarrow>
     \<exists>t. (t = [LF] \<or> t = [CR, LF]) \<and> trimTerminator (r @ [LF]) @ t = r @ [LF]"
proof (induction r)
  case Nil
  show ?case by simp
next
  case (Cons c cs)
  then obtain t where t: "t = [LF] \<or> t = [CR, LF]" "trimTerminator (cs @ [LF]) @ t = cs @ [LF]"
    by auto
  show ?case
  proof (cases "c = CR \<and> cs = []")
    case True
    then show ?thesis by simp
  next
    case False
    with Cons.prems have "trimTerminator ((c # cs) @ [LF]) = c # trimTerminator (cs @ [LF])"
      by auto
    with t show ?thesis by auto
  qed
qed

lemma scan_seed_accounts:
  "\<exists>ts. length ts = length (complete (scan_step seed s))
     \<and> list_all (\<lambda>t. t = [LF] \<or> t = [CR, LF]) ts
     \<and> without_blank_lines s =
         restored (complete (scan_step seed s)) ts @ incomplete (scan_step seed s)"
proof (induction s rule: line_induct)
  case Empty
  show ?case
    by (simp add: scan_seed_Nil without_blank_lines_def restored_def)
next
  case (Blank rest)
  then show ?case
    by (simp add: scan_seed_blank without_blank_lines_def)
next
  case (Line r rest)
  from Line.IH obtain ts where ts:
    "length ts = length (complete (scan_step seed rest))"
    "list_all (\<lambda>t. t = [LF] \<or> t = [CR, LF]) ts"
    "without_blank_lines rest =
       restored (complete (scan_step seed rest)) ts @ incomplete (scan_step seed rest)"
    by blast
  from Line.hyps trimTerminator_restore [of r] obtain t where t:
    "t = [LF] \<or> t = [CR, LF]" "trimTerminator (r @ [LF]) @ t = r @ [LF]"
    by blast
  have "length (t # ts) = length (complete (scan_step seed (r @ LF # rest)))"
    using Line.hyps ts(1) by (simp add: scan_seed_line)
  moreover have "list_all (\<lambda>t. t = [LF] \<or> t = [CR, LF]) (t # ts)"
    using t(1) ts(2) by simp
  moreover have "without_blank_lines (r @ LF # rest) =
      restored (complete (scan_step seed (r @ LF # rest))) (t # ts)
        @ incomplete (scan_step seed (r @ LF # rest))"
  proof -
    have "without_blank_lines (r @ LF # rest) = (r @ [LF]) @ without_blank_lines rest"
      using Line.hyps by (simp add: without_blank_lines_def drop_blank_line)
    also have "\<dots> = (trimTerminator (r @ [LF]) @ t)
        @ restored (complete (scan_step seed rest)) ts @ incomplete (scan_step seed rest)"
      by (simp only: t(2) ts(3))
    also have "\<dots> = restored (complete (scan_step seed (r @ LF # rest))) (t # ts)
        @ incomplete (scan_step seed (r @ LF # rest))"
      using Line.hyps by (simp add: scan_seed_line restored_def)
    finally show ?thesis .
  qed
  ultimately show ?case by blast
next
  case (Tail r)
  then show ?case
    by (simp add: scan_seed_tail without_blank_lines_def restored_def drop_blank_LF_free)
qed

lemma scan_append:
  "scan f acc (xs @ ys) = scan f acc xs @ scan f (foldl f acc xs) ys"
  by (induction xs arbitrary: acc) simp_all

lemma lines_stream_snoc:
  "lines_stream (chunks @ [c]) = lines_stream chunks @ complete (buffer_after (chunks @ [c]))"
  by (simp add: lines_stream_def buffer_after_def scan_append)

text \<open>
  After the single chunk \<open>\n\<close> no line has been emitted (so there is no terminator to
  restore) and \<open>incomplete\<close> is empty, while the chunks received so far are \<open>\n\<close>: the
  emitted lines and \<open>incomplete\<close> do not add up to the input.
\<close>

theorem accumulator_invariant_counterexample:
  "lines_stream [[LF]] = []
   \<and> incomplete (buffer_after [[LF]]) = []
   \<and> concat [[LF]] \<noteq> restored (lines_stream [[LF]]) [] @ incomplete (buffer_after [[LF]])"
  by code_simp

text \<open>
  C2 (amended): at every step of the accumulator, the emitted lines, each with its
  terminator (\<open>\n\<close> or \<open>\r\n\<close>) restored, followed by \<open>incomplete\<close>, are the
  concatenation of the chunks received so far without the \<open>\n\<close> of empty lines (a
  \<open>\n\<close> at the very start or directly behind another \<open>\n\<close> is skipped, not emitted
  and not buffered).  The \<open>complete\<close> field after a chunk holds exactly the lines that
  this chunk added to the output, not the earlier ones.
\<close>

theorem accumulator_accounts_for_input:
  "(\<exists>ts. length ts = length (lines_stream chunks)
      \<and> list_all (\<lambda>t. t = [LF] \<or> t = [CR, LF]) ts
      \<and> without_blank_lines (concat chunks) =
          restored (lines_stream chunks) ts @ incomplete (buffer_after chunks))
   \<and> lines_stream (chunks @ [c]) =
       lines_stream chunks @ complete (buffer_after (chunks @ [c]))"
proof
  show "\<exists>ts. length ts = length (lines_stream chunks)
      \<and> list_all (\<lambda>t. t = [LF] \<or> t = [CR, LF]) ts
      \<and> without_blank_lines (concat chunks) =
          restored (lines_stream chunks) ts @ incomplete (buffer_after chunks)"
    using scan_seed_accounts [of "concat chunks"]
    by (simp only: lines_stream_payload buffer_after_payload)
  show "lines_stream (chunks @ [c]) =
      lines_stream chunks @ complete (buffer_after (chunks @ [c]))"
    by (rule lines_stream_snoc)
qed

text \<open>
  The chunks \<open>a\r\n\n\<close> and \<open>b\nc\<close>, followed by the chunk \<open>\n\<close>: the lines \<open>a\<close> and
  \<open>b\<close> are emitted with \<open>c\<close> left over, the empty line between them is skipped, and
  the last chunk completes \<open>c\<close>.
\<close>

theorem accumulator_accounts_for_input_witness:
  "(\<exists>ts. length ts = length (lines_stream [[CHR ''a'', CR, LF, LF], [CHR ''b'', LF, CHR ''c'']])
      \<and> list_all (\<lambda>t. t = [LF] \<or> t = [CR, LF]) ts
      \<and> without_blank_lines (concat [[CHR ''a'', CR, LF, LF], [CHR ''b'', LF, CHR ''c'']]) =
          restored (lines_stream [[CHR ''a'', CR, LF, LF], [CHR ''b'', LF, CHR ''c'']]) ts
            @ incomplete (buffer_after [[CHR ''a'', CR, LF, LF], [CHR ''b'', LF, CHR ''c'']]))
   \<and> lines_stream ([[CHR ''a'', CR, LF, LF], [CHR ''b'', LF, CHR ''c'']] @ [[LF]]) =
       lines_stream [[CHR ''a'', CR, LF, LF], [CHR ''b'', LF, CHR ''c'']]
         @ complete (buffer_after ([[CHR ''a'', CR, LF, LF], [CHR ''b'', LF, CHR ''c'']] @ [[LF]]))
   \<and> lines_stream [[CHR ''a'', CR, LF, LF], [CHR ''b'', LF, CHR ''c'']] = [''a'', ''b'']
   \<and> incomplete (buffer_after [[CHR ''a'', CR, LF, LF], [CHR ''b'', LF, CHR ''c'']]) = ''c''
   \<and> without_blank_lines (concat [[CHR ''a'', CR, LF, LF], [CHR ''b'', LF, CHR ''c'']]) =
       restored [''a'', ''b''] [[CR, LF], [LF]] @ ''c''
   \<and> complete (buffer_after ([[CHR ''a'', CR, LF, LF], [CHR ''b'', LF, CHR ''c'']] @ [[LF]])) =
       [''c'']"
proof -
  have computed:
    "lines_stream [[CHR ''a'', CR, LF, LF], [CHR ''b'', LF, CHR ''c'']] = [''a'', ''b'']"
    "incomplete (buffer_after [[CHR ''a'', CR, LF, LF], [CHR ''b'', LF, CHR ''c'']]) = ''c''"
    "without_blank_lines (concat [[CHR ''a'', CR, LF, LF], [CHR ''b'', LF, CHR ''c'']]) =
       restored [''a'', ''b''] [[CR, LF], [LF]] @ ''c''"
    "complete (buffer_after ([[CHR ''a'', CR, LF, LF], [CHR ''b'', LF, CHR ''c'']] @ [[LF]])) =
       [''c'']"
    by code_simp+
  from accumulator_accounts_for_input
    [of "[[CHR ''a'', CR, LF, LF], [CHR ''b'', LF, CHR ''c'']]" "[LF]"] computed
  show ?thesis
    by blast
qed

section \<open>The message parser (\<open>parseIRCMessage\<close>)\<close>

record IRCMessage =
  prefix :: "string option"
  command :: string
  params :: "string list"

subsection \<open>The scanner\<close>

text \<open>
  The nested functions of \<open>parseIRCMessage\<close> share the cursor \<open>index\<close> and read
  \<open>line\<close>; here each takes the line and the cursor and returns its result with the new
  cursor.  A character is a string of length one, and \<open>peekNext\<close> gives the empty string
  at the end of the line, as in the source.
\<close>

definition peekNext :: "string \<Rightarrow> nat \<Rightarrow> string" where
  "peekNext line index = (if index \<ge> length line then [] else [line ! index])"

definition scanNext :: "string \<Rightarrow> nat \<Rightarrow> string \<times> nat" where
  "scanNext line index =
     (let c = peekNext line index
      in (c, if index < length line then index + 1 else index))"

definition skip :: "string \<Rightarrow> string \<Rightarrow> nat \<Rightarrow> bool \<times> nat" where
  "skip line c index =
     (if peekNext line index = c then (True, snd (scanNext line index)) else (False, index))"

lemma peekNext_Nil: "peekNext line index = [] \<longleftrightarrow> length line \<le> index"
  by (simp add: peekNext_def)

text \<open>The loop of \<open>scanWhile\<close>; \<open>result\<close> is its local variable.\<close>

function scanWhile_loop :: "string \<Rightarrow> (string \<Rightarrow> bool) \<Rightarrow> string \<Rightarrow> nat \<Rightarrow> string \<times> nat" where
  "scanWhile_loop line pred result index =
     (if peekNext line index = [] \<or> \<not> pred (peekNext line index) then (result, index)
      else scanWhile_loop line pred (result @ peekNext line index) (snd (scanNext line index)))"
  by pat_completeness auto
termination
proof (relation "measure (\<lambda>(line, pred, result, index). length line - index)")
  show "wf (measure (\<lambda>(line, pred, result, index). length line - index))"
    by simp
next
  fix line :: string and pred :: "string \<Rightarrow> bool" and result :: string and index :: nat
  assume "\<not> (peekNext line index = [] \<or> \<not> pred (peekNext line index))"
  then have "index < length line"
    by (simp add: peekNext_Nil)
  then show "((line, pred, result @ peekNext line index, snd (scanNext line index)),
      (line, pred, result, index))
    \<in> measure (\<lambda>(line, pred, result, index). length line - index)"
    by (simp add: scanNext_def Let_def)
qed

declare scanWhile_loop.simps [simp del]

definition scanWhile :: "string \<Rightarrow> (string \<Rightarrow> bool) \<Rightarrow> nat \<Rightarrow> string \<times> nat" where
  "scanWhile line pred index = scanWhile_loop line pred [] index"

definition skipSpaces :: "string \<Rightarrow> nat \<Rightarrow> bool \<times> nat" where
  "skipSpaces line index =
     (let (spaces, index') = scanWhile line (\<lambda>c. c = '' '') index
      in (length spaces > 0, index'))"

definition isEOF :: "string \<Rightarrow> nat \<Rightarrow> bool" where
  "isEOF line index \<longleftrightarrow> index \<ge> length line"

text \<open>
  What a scan returns: the longest run of accepted characters from the cursor on, and
  the cursor behind that run.
\<close>

lemma scanWhile_loop_run:
  "scanWhile_loop line pred result index =
     (result @ takeWhile (\<lambda>c. pred [c]) (drop index line),
      index + length (takeWhile (\<lambda>c. pred [c]) (drop index line)))"
proof (induction line pred result index rule: scanWhile_loop.induct)
  case (1 line pred result index)
  show ?case
  proof (cases "index < length line")
    case False
    then show ?thesis
      by (simp add: scanWhile_loop.simps [of line pred result index] peekNext_def)
  next
    case True
    then have d: "drop index line = line ! index # drop (Suc index) line"
      by (simp add: Cons_nth_drop_Suc)
    show ?thesis
    proof (cases "pred [line ! index]")
      case False
      with True d show ?thesis
        by (simp add: scanWhile_loop.simps [of line pred result index] peekNext_def)
    next
      case accepted: True
      with True have "\<not> (peekNext line index = [] \<or> \<not> pred (peekNext line index))"
        by (simp add: peekNext_def)
      from 1 [OF this] True accepted d show ?thesis
        by (simp add: scanWhile_loop.simps [of line pred result index] peekNext_def
            scanNext_def Let_def)
    qed
  qed
qed

lemma scanWhile_run:
  "scanWhile line pred index =
     (takeWhile (\<lambda>c. pred [c]) (drop index line),
      index + length (takeWhile (\<lambda>c. pred [c]) (drop index line)))"
  by (simp add: scanWhile_def scanWhile_loop_run)

lemma skipSpaces_run:
  "skipSpaces line index =
     (takeWhile (\<lambda>c. c = CHR '' '') (drop index line) \<noteq> [],
      index + length (takeWhile (\<lambda>c. c = CHR '' '') (drop index line)))"
  by (simp add: skipSpaces_def scanWhile_run)

subsection \<open>The parameter loop\<close>

text \<open>
  One pass through the body of the \<open>while (true)\<close> loop: it either returns the message
  or goes round again with the message and the cursor it has reached.
\<close>

datatype iteration = Return IRCMessage | Continue IRCMessage nat

definition params_iteration :: "string \<Rightarrow> IRCMessage \<Rightarrow> nat \<Rightarrow> iteration" where
  "params_iteration line message index =
     (let (trailing, index0) = skip line '':'' index
      in if trailing
         then (let (rest, index1) = scanWhile line (\<lambda>c. True) index0
               in Return (message\<lparr>params := params message @ [rest]\<rparr>))
         else (let (param, index1) = scanWhile line (\<lambda>c. c \<noteq> '' '') index0;
                   message' = message\<lparr>params := params message @ [param]\<rparr>;
                   (skipped, index2) = skipSpaces line index1
               in if isEOF line index2 then Return message' else Continue message' index2))"

lemma no_run_either_way:
  "takeWhile P xs = [] \<Longrightarrow> takeWhile (\<lambda>c. \<not> P c) xs = [] \<Longrightarrow> xs = []"
  by (cases xs) (auto split: if_splits)

text \<open>
  A pass that goes round again has moved the cursor forward and has not reached the end
  of the line: the token scan stops at a space or at the end, and \<open>skipSpaces\<close> then
  takes that space.
\<close>

lemma params_iteration_progress:
  assumes "params_iteration line message index = Continue message' index'"
  shows "index < index' \<and> index' < length line"
proof -
  define n1 where "n1 = length (takeWhile (\<lambda>c. c \<noteq> CHR '' '') (drop index line))"
  define n2 where "n2 = length (takeWhile (\<lambda>c. c = CHR '' '') (drop (index + n1) line))"
  from assms have no_colon: "\<not> fst (skip line '':'' index)"
    by (auto simp: params_iteration_def Let_def split: prod.splits if_splits)
  then have same: "skip line '':'' index = (False, index)"
    by (simp add: skip_def split: if_splits)
  from assms have i': "index' = index + n1 + n2" and inside: "index' < length line"
    by (auto simp: params_iteration_def same scanWhile_run skipSpaces_run isEOF_def
        n1_def n2_def Let_def split: if_splits)
  have "0 < n1 + n2"
  proof (rule ccontr)
    assume "\<not> 0 < n1 + n2"
    then have z1: "n1 = 0" and z2: "n2 = 0"
      by simp_all
    from z1 have t1: "takeWhile (\<lambda>c. c \<noteq> CHR '' '') (drop index line) = []"
      by (simp add: n1_def)
    from z2 z1 have t2: "takeWhile (\<lambda>c. \<not> c \<noteq> CHR '' '') (drop index line) = []"
      by (simp add: n2_def)
    from t1 t2 have "drop index line = []"
      by (rule no_run_either_way)
    with i' z1 z2 inside show False
      by simp
  qed
  with i' inside show ?thesis
    by simp
qed

text \<open>The \<open>while (true)\<close> loop: it leaves only through a \<open>return message\<close>.\<close>

function parseParams :: "string \<Rightarrow> IRCMessage \<Rightarrow> nat \<Rightarrow> IRCMessage" where
  "parseParams line message index =
     (case params_iteration line message index of
        Return message' \<Rightarrow> message'
      | Continue message' index' \<Rightarrow> parseParams line message' index')"
  by pat_completeness auto
termination
proof (relation "measure (\<lambda>(line, message, index). length line - index)")
  show "wf (measure (\<lambda>(line, message, index). length line - index))"
    by simp
next
  fix line :: string and message message' :: IRCMessage and index index' :: nat
  assume "params_iteration line message index = Continue message' index'"
  then have "index < index' \<and> index' < length line"
    by (rule params_iteration_progress)
  then show "((line, message', index'), (line, message, index))
    \<in> measure (\<lambda>(line, message, index). length line - index)"
    by auto
qed

declare parseParams.simps [simp del]

subsection \<open>\<open>parseIRCMessage\<close>\<close>

text \<open>
  The declared result type is \<open>IRCMessage | undefined\<close>: \<open>None\<close> stands for
  \<open>undefined\<close>.  The function is written in two parts, since the prefix part can return
  early: \<open>parseCommand\<close> is the source from \<open>// Parse command name or number\<close> on.
\<close>

definition parseCommand :: "string \<Rightarrow> IRCMessage \<Rightarrow> nat \<Rightarrow> IRCMessage option" where
  "parseCommand line message index =
     (let (name, index1) = scanWhile line (\<lambda>c. c \<noteq> '' '') index;
          message' = message\<lparr>command := name\<rparr>;
          (skipped, index2) = skipSpaces line index1
      in if \<not> skipped then Some message'
         else Some (parseParams line message' index2))"

definition parseIRCMessage :: "string \<Rightarrow> IRCMessage option" where
  "parseIRCMessage line =
     (let message = \<lparr>prefix = None, command = [], params = []\<rparr>;
          (colon, index0) = skip line '':'' 0
      in if colon
         then (let (name, index1) = scanWhile line (\<lambda>c. c \<noteq> '' '') index0;
                   message' = message\<lparr>prefix := Some name\<rparr>;
                   (skipped, index2) = skipSpaces line index1
               in if \<not> skipped then Some message'
                  else parseCommand line message' index2)
         else parseCommand line message index0)"

lemma parseCommand_Some: "\<exists>message'. parseCommand line message index = Some message'"
  by (simp add: parseCommand_def Let_def split: prod.splits)

lemma parseIRCMessage_Some: "\<exists>message. parseIRCMessage line = Some message"
  using parseCommand_Some
  by (simp add: parseIRCMessage_def Let_def split: prod.splits)

text \<open>
  C5: for every input string \<open>parseIRCMessage\<close> returns a message (it never returns
  \<open>undefined\<close>, and the model has no failing branch because the source has none).  The
  loops end: \<open>scanWhile\<close> and the parameter loop are total functions, and every pass of
  the parameter loop that does not return moves the cursor forward and leaves it inside
  the line.
\<close>

theorem parseIRCMessage_total:
  "(\<exists>message. parseIRCMessage line = Some message)
   \<and> (params_iteration line m index = Continue m' index'
        \<longrightarrow> index < index' \<and> index' < length line)"
  using parseIRCMessage_Some [of line] params_iteration_progress [of line m index m' index']
  by blast

text \<open>
  The line \<open>A b c\<close>: the pass that starts at \<open>b\<close> (cursor 2) takes \<open>b\<close> and the space
  behind it and goes round again at cursor 4.
\<close>

theorem parseIRCMessage_total_witness:
  "parseIRCMessage ''A b c'' = Some \<lparr>prefix = None, command = ''A'', params = [''b'', ''c'']\<rparr>
   \<and> params_iteration ''A b c'' \<lparr>prefix = None, command = ''A'', params = []\<rparr> 2 =
       Continue \<lparr>prefix = None, command = ''A'', params = [''b'']\<rparr> 4
   \<and> (2 :: nat) < 4 \<and> (4 :: nat) < length ''A b c''"
proof -
  have run: "params_iteration ''A b c'' \<lparr>prefix = None, command = ''A'', params = []\<rparr> 2 =
      Continue \<lparr>prefix = None, command = ''A'', params = [''b'']\<rparr> 4"
    by code_simp
  have parsed: "parseIRCMessage ''A b c'' =
      Some \<lparr>prefix = None, command = ''A'', params = [''b'', ''c'']\<rparr>"
    by code_simp
  from parseIRCMessage_total [of "''A b c''"
      "\<lparr>prefix = None, command = ''A'', params = []\<rparr>" 2
      "\<lparr>prefix = None, command = ''A'', params = [''b'']\<rparr>" 4] run parsed
  show ?thesis
    by blast
qed

subsection \<open>Empty and blank lines\<close>

lemma skip_colon_EOF: "length line \<le> index \<Longrightarrow> skip line '':'' index = (False, index)"
  by (simp add: skip_def peekNext_def)

lemma params_iteration_EOF:
  "length line \<le> index \<Longrightarrow>
     params_iteration line message index = Return (message\<lparr>params := params message @ [[]]\<rparr>)"
  by (simp add: params_iteration_def skip_colon_EOF scanWhile_run skipSpaces_run isEOF_def)

lemma parseParams_EOF:
  "length line \<le> index \<Longrightarrow>
     parseParams line message index = message\<lparr>params := params message @ [[]]\<rparr>"
  by (simp add: parseParams.simps [of line message index] params_iteration_EOF)

lemma parseIRCMessage_empty:
  "parseIRCMessage [] = Some \<lparr>prefix = None, command = [], params = []\<rparr>"
  by (simp add: parseIRCMessage_def parseCommand_def skip_colon_EOF scanWhile_run skipSpaces_run)

lemma parseIRCMessage_blank:
  "parseIRCMessage (replicate (Suc n) (CHR '' '')) =
     Some \<lparr>prefix = None, command = [], params = [[]]\<rparr>"
proof -
  have "skip (replicate (Suc n) (CHR '' '')) '':'' 0 = (False, 0)"
    by (simp add: skip_def peekNext_def)
  then show ?thesis
    by (simp add: parseIRCMessage_def parseCommand_def scanWhile_run skipSpaces_run
        parseParams_EOF)
qed

text \<open>
  The line that is a single space: the command scan stops at once, \<open>skipSpaces\<close> takes
  the space, and the parameter loop, entered at the end of the line, pushes the empty
  token before it tests \<open>isEOF\<close>.  The result has one (empty) parameter.
\<close>

theorem blank_line_counterexample:
  "parseIRCMessage '' '' = Some \<lparr>prefix = None, command = [], params = [[]]\<rparr>
   \<and> parseIRCMessage '' '' \<noteq> Some \<lparr>prefix = None, command = [], params = []\<rparr>"
  by code_simp

text \<open>
  C6 (amended): for the empty line \<open>parseIRCMessage\<close> returns
  \<open>{prefix: undefined, command: "", params: []}\<close>; for a line of one or more spaces
  and nothing else it returns \<open>{prefix: undefined, command: "", params: [""]}\<close>, with
  one empty parameter.
\<close>

theorem parseIRCMessage_empty_or_blank:
  "parseIRCMessage [] = Some \<lparr>prefix = None, command = [], params = []\<rparr>
   \<and> parseIRCMessage (replicate (Suc n) (CHR '' '')) =
       Some \<lparr>prefix = None, command = [], params = [[]]\<rparr>"
  by (simp only: parseIRCMessage_empty parseIRCMessage_blank)

theorem parseIRCMessage_empty_or_blank_witness:
  "parseIRCMessage [] = Some \<lparr>prefix = None, command = [], params = []\<rparr>
   \<and> parseIRCMessage ''   '' = Some \<lparr>prefix = None, command = [], params = [[]]\<rparr>"
  using parseIRCMessage_empty_or_blank [of "Suc (Suc 0)"]
  by simp

subsection \<open>The inbound stream \<open>messages$\<close>\<close>

text \<open>
  The callback given to \<open>flatMap\<close>: \<open>Rx.EMPTY\<close> when the parser returns \<open>undefined\<close>
  (an object is never falsy, so \<open>!message\<close> tests exactly that), else the stream of the
  one message.
\<close>

definition messages_of_line :: "string \<Rightarrow> IRCMessage list" where
  "messages_of_line line =
     (case parseIRCMessage line of
        None \<Rightarrow> []
      | Some message \<Rightarrow> [message])"

text \<open>\<open>messages$\<close>, as a function of the texts of the chunks that the socket delivers.\<close>

definition messages_stream :: "string list \<Rightarrow> IRCMessage list" where
  "messages_stream chunks = concat (map messages_of_line (lines_stream chunks))"

lemma messages_of_lines:
  "map Some (concat (map messages_of_line lines)) = map parseIRCMessage lines"
proof (induction lines)
  case Nil
  show ?case by simp
next
  case (Cons l ls)
  from parseIRCMessage_Some [of l] obtain message where "parseIRCMessage l = Some message" ..
  with Cons show ?case
    by (simp add: messages_of_line_def)
qed

text \<open>
  C10: \<open>parseIRCMessage\<close> never returns \<open>undefined\<close>, so the branch of \<open>messages$\<close> that
  drops a line is never taken: the messages of \<open>messages$\<close> are, one for one and in
  order, the parse results of the lines that \<open>lines$\<close> emits.
\<close>

theorem messages_stream_one_per_line:
  "parseIRCMessage line \<noteq> None
   \<and> map Some (messages_stream chunks) = map parseIRCMessage (lines_stream chunks)
   \<and> length (messages_stream chunks) = length (lines_stream chunks)"
proof -
  have one: "map Some (messages_stream chunks) = map parseIRCMessage (lines_stream chunks)"
    by (simp add: messages_stream_def messages_of_lines)
  have len: "length (messages_stream chunks) = length (lines_stream chunks)"
    using arg_cong [OF one, of length] by (simp only: length_map)
  from parseIRCMessage_Some [of line] have "parseIRCMessage line \<noteq> None"
    by auto
  with one len show ?thesis
    by simp
qed

text \<open>Two lines in two chunks, the second line a blank one: two messages.\<close>

theorem messages_stream_one_per_line_witness:
  "parseIRCMessage '' '' \<noteq> None
   \<and> map Some (messages_stream [''PING :a'' @ [CR], LF # '' '' @ [CR, LF]]) =
       map parseIRCMessage (lines_stream [''PING :a'' @ [CR], LF # '' '' @ [CR, LF]])
   \<and> length (messages_stream [''PING :a'' @ [CR], LF # '' '' @ [CR, LF]]) =
       length (lines_stream [''PING :a'' @ [CR], LF # '' '' @ [CR, LF]])
   \<and> messages_stream [''PING :a'' @ [CR], LF # '' '' @ [CR, LF]] =
       [\<lparr>prefix = None, command = ''PING'', params = [''a'']\<rparr>,
        \<lparr>prefix = None, command = [], params = [[]]\<rparr>]"
proof -
  have "messages_stream [''PING :a'' @ [CR], LF # '' '' @ [CR, LF]] =
       [\<lparr>prefix = None, command = ''PING'', params = [''a'']\<rparr>,
        \<lparr>prefix = None, command = [], params = [[]]\<rparr>]"
    by code_simp
  with messages_stream_one_per_line
    [of "'' ''" "[''PING :a'' @ [CR], LF # '' '' @ [CR, LF]]"]
  show ?thesis
    by blast
qed

section \<open>The protocol core (\<open>RxIRCClient\<close>)\<close>

record Options =
  hostname :: string
  username :: string
  port :: int
  nick :: string
  realName :: string

subsection \<open>Array operations of the formatter\<close>

text \<open>
  \<open>Array.prototype.slice\<close>: an index below zero counts from the end and is clamped to
  zero, an index beyond the length is clamped to the length; a range whose end lies
  before its start is empty.  \<open>slice_from\<close> is \<open>slice\<close> with the end left out.
\<close>

definition relative_index :: "int \<Rightarrow> nat \<Rightarrow> nat" where
  "relative_index k len = (if k < 0 then nat (max (int len + k) 0) else min (nat k) len)"

definition slice :: "'a list \<Rightarrow> int \<Rightarrow> int \<Rightarrow> 'a list" where
  "slice xs start stop =
     (let first = relative_index start (length xs);
          final = relative_index stop (length xs)
      in take (final - first) (drop first xs))"

definition slice_from :: "'a list \<Rightarrow> int \<Rightarrow> 'a list" where
  "slice_from xs start = drop (relative_index start (length xs)) xs"

text \<open>\<open>Array.prototype.join\<close> on an array of strings.\<close>

fun join :: "string list \<Rightarrow> string \<Rightarrow> string" where
  "join [] separator = []"
| "join [x] separator = x"
| "join (x # y # ys) separator = x @ separator @ join (y # ys) separator"

subsection \<open>Sending (\<open>send$\<close>)\<close>

text \<open>The string \<open>data\<close> that \<open>send$.next\<close> builds from a message.\<close>

definition send_data :: "IRCMessage \<Rightarrow> string" where
  "send_data message =
     (let paramCount = int (length (params message))
      in command message @ '' '' @ join (slice (params message) 0 (paramCount - 1)) '' ''
           @ '' '' @ '':'' @ join (slice_from (params message) (paramCount - 1)) '' ''
           @ [CR, LF])"

text \<open>
  The socket is modelled by what has been written to it, in order.  \<open>write$.next\<close>
  passes its argument to \<open>socket.write\<close> (and logs it); \<open>send$.next\<close> writes the
  formatted message; \<open>send\<close> is \<open>send$.next\<close>.
\<close>

definition write_next :: "string \<Rightarrow> string list \<Rightarrow> string list" where
  "write_next data written = written @ [data]"

definition send_next :: "IRCMessage \<Rightarrow> string list \<Rightarrow> string list" where
  "send_next message written = write_next (send_data message) written"

definition send :: "IRCMessage \<Rightarrow> string list \<Rightarrow> string list" where
  "send message written = send_next message written"

text \<open>
  The other two members of \<open>send$\<close>, \<open>complete\<close> and \<open>error\<close>, write a line that is
  spelled out in the source.
\<close>

definition send_complete :: "string list \<Rightarrow> string list" where
  "send_complete written = write_next (''QUIT :Leaving'' @ [CR, LF]) written"

definition send_error :: "string list \<Rightarrow> string list" where
  "send_error written = write_next (''QUIT :Error'' @ [CR, LF]) written"

lemma relative_index_zero: "relative_index 0 len = 0"
  by (simp add: relative_index_def)

lemma relative_index_last: "0 < len \<Longrightarrow> relative_index (int len - 1) len = len - 1"
  by (auto simp: relative_index_def)

lemma slice_butlast: "xs \<noteq> [] \<Longrightarrow> slice xs 0 (int (length xs) - 1) = butlast xs"
  by (simp add: slice_def relative_index_zero relative_index_last butlast_conv_take)

lemma slice_from_last: "xs \<noteq> [] \<Longrightarrow> slice_from xs (int (length xs) - 1) = [last xs]"
proof (cases xs rule: rev_cases)
  case Nil
  then show "xs \<noteq> [] \<Longrightarrow> ?thesis" by simp
next
  case (snoc ys y)
  have "relative_index (int (length xs) - 1) (length xs) = length ys"
    using relative_index_last [of "length xs"] snoc by simp
  with snoc show ?thesis
    by (simp add: slice_from_def)
qed

text \<open>With at least one parameter the slices are all but the last, and the last.\<close>

lemma send_data_params:
  "params message \<noteq> [] \<Longrightarrow>
     send_data message =
       command message @ '' '' @ join (butlast (params message)) '' ''
         @ '' :'' @ last (params message) @ [CR, LF]"
  by (simp add: send_data_def slice_butlast slice_from_last)

text \<open>With no parameter both slices are empty.\<close>

lemma send_data_no_params:
  "params message = [] \<Longrightarrow> send_data message = command message @ ''  :'' @ [CR, LF]"
  by (simp add: send_data_def slice_def slice_from_def relative_index_def)

subsection \<open>The format of an outbound line\<close>

text \<open>
  The line \<open>COMMAND p0 p1 ... :pLast\r\n\<close> as the specification writes it: the command,
  the parameters before the last one, and the last parameter behind a colon, with single
  spaces between them, then \<open>\r\n\<close>.  The message is given by its command, the
  parameters before the last, and the last parameter.
\<close>

definition specified_line :: "string \<Rightarrow> string list \<Rightarrow> string \<Rightarrow> string" where
  "specified_line name middle trailing =
     join (name # middle @ ['':'' @ trailing]) '' '' @ [CR, LF]"

lemma join_Cons: "xs \<noteq> [] \<Longrightarrow> join (x # xs) separator = x @ separator @ join xs separator"
  by (cases xs) simp_all

lemma join_snoc: "xs \<noteq> [] \<Longrightarrow> join (xs @ [y]) separator = join xs separator @ separator @ y"
proof (induction xs)
  case Nil
  then show ?case by simp
next
  case (Cons x xs)
  then show ?case
    by (cases "xs = []") (simp_all add: join_Cons)
qed

text \<open>With two or more parameters \<open>send$.next\<close> writes the specified line.\<close>

lemma send_data_specified:
  "middle \<noteq> [] \<Longrightarrow>
     send_data \<lparr>prefix = p, command = name, params = middle @ [trailing]\<rparr> =
       specified_line name middle trailing"
  by (simp add: send_data_params specified_line_def join_Cons join_snoc)

text \<open>
  With exactly one parameter the list before the last parameter is empty; its join is
  the empty string, and the two spaces that the template puts around it meet.
\<close>

lemma send_data_one_param:
  "send_data \<lparr>prefix = p, command = name, params = [trailing]\<rparr> =
     name @ ''  :'' @ trailing @ [CR, LF]"
  by (simp add: send_data_params)

text \<open>
  C3: with at least one parameter \<open>send$.next\<close> is to write the line
  \<open>COMMAND p0 p1 ... :pLast\r\n\<close>.  With exactly one parameter it writes the command,
  two spaces, the colon and the parameter, which is not the specified line (that has
  one space); with two or more parameters it writes the specified line.  The lines
  that \<open>send$.complete\<close> and \<open>send$.error\<close> write, a \<open>QUIT\<close> with one parameter, are
  the specified lines.
\<close>

theorem send_data_single_parameter:
  "send_data \<lparr>prefix = p, command = name, params = [trailing]\<rparr> =
     name @ ''  :'' @ trailing @ [CR, LF]
   \<and> specified_line name [] trailing = name @ '' :'' @ trailing @ [CR, LF]
   \<and> send_data \<lparr>prefix = p, command = name, params = [trailing]\<rparr> \<noteq>
       specified_line name [] trailing
   \<and> (middle \<noteq> [] \<longrightarrow>
        send_data \<lparr>prefix = p, command = name, params = middle @ [trailing]\<rparr> =
          specified_line name middle trailing)
   \<and> send_complete written = written @ [specified_line ''QUIT'' [] ''Leaving'']
   \<and> send_error written = written @ [specified_line ''QUIT'' [] ''Error'']"
  by (simp add: send_data_one_param send_data_specified)
    (simp add: specified_line_def send_complete_def send_error_def write_next_def)

text \<open>
  The two messages of the handshake with the options of \<open>index.ts\<close>: \<open>NICK\<close> has one
  parameter and is written with two spaces, \<open>USER\<close> has four and is written as
  specified.
\<close>

theorem send_data_single_parameter_witness:
  "send_data \<lparr>prefix = None, command = ''NICK'', params = [''VolteTest'']\<rparr> =
     ''NICK  :VolteTest'' @ [CR, LF]
   \<and> specified_line ''NICK'' [] ''VolteTest'' = ''NICK :VolteTest'' @ [CR, LF]
   \<and> send_data \<lparr>prefix = None, command = ''NICK'', params = [''VolteTest'']\<rparr> \<noteq>
       specified_line ''NICK'' [] ''VolteTest''
   \<and> [''VolteTest'', ''.'', ''.''] \<noteq> []
   \<and> send_data \<lparr>prefix = None, command = ''USER'',
                  params = [''VolteTest'', ''.'', ''.''] @ [''foo'']\<rparr> =
       specified_line ''USER'' [''VolteTest'', ''.'', ''.''] ''foo''
   \<and> specified_line ''USER'' [''VolteTest'', ''.'', ''.''] ''foo'' =
       ''USER VolteTest . . :foo'' @ [CR, LF]"
proof -
  have line: "specified_line ''USER'' [''VolteTest'', ''.'', ''.''] ''foo'' =
       ''USER VolteTest . . :foo'' @ [CR, LF]"
    by (simp add: specified_line_def)
  have many: "[''VolteTest'', ''.'', ''.''] \<noteq> ([] :: string list)"
    by simp
  from send_data_single_parameter
    [of None "''NICK''" "''VolteTest''" "[''VolteTest'', ''.'', ''.'']" "[]"]
  have nick: "send_data \<lparr>prefix = None, command = ''NICK'', params = [''VolteTest'']\<rparr> =
      ''NICK  :VolteTest'' @ [CR, LF]"
    and spec: "specified_line ''NICK'' [] ''VolteTest'' = ''NICK :VolteTest'' @ [CR, LF]"
    and differ: "send_data \<lparr>prefix = None, command = ''NICK'', params = [''VolteTest'']\<rparr> \<noteq>
       specified_line ''NICK'' [] ''VolteTest''"
    by simp_all
  from send_data_single_parameter
    [of None "''USER''" "''foo''" "[''VolteTest'', ''.'', ''.'']" "[]"] many
  have user: "send_data \<lparr>prefix = None, command = ''USER'',
                  params = [''VolteTest'', ''.'', ''.''] @ [''foo'']\<rparr> =
       specified_line ''USER'' [''VolteTest'', ''.'', ''.''] ''foo''"
    by blast
  from nick spec differ many user line show ?thesis
    by (intro conjI)
qed

text \<open>
  C9: for a message without parameters \<open>send$.next\<close> raises nothing: both slices are
  empty (the end index \<open>-1\<close> of the first and the start index \<open>-1\<close> of the second are
  clamped to zero), the string built is the command followed by two spaces, a colon and
  \<open>\r\n\<close>, and that one string is written to the socket behind what was written
  before.
\<close>

theorem send_next_no_params:
  "params message = [] \<Longrightarrow>
     slice (params message) 0 (int (length (params message)) - 1) = []
     \<and> slice_from (params message) (int (length (params message)) - 1) = []
     \<and> send_data message = command message @ ''  :'' @ [CR, LF]
     \<and> send_next message written = written @ [command message @ ''  :'' @ [CR, LF]]"
  by (simp add: send_next_def write_next_def send_data_no_params slice_def slice_from_def)

theorem send_next_no_params_witness:
  "params \<lparr>prefix = None, command = ''AWAY'', params = []\<rparr> = []
   \<and> send_data \<lparr>prefix = None, command = ''AWAY'', params = []\<rparr> = ''AWAY  :'' @ [CR, LF]
   \<and> send_next \<lparr>prefix = None, command = ''AWAY'', params = []\<rparr> [''x''] =
       [''x'', ''AWAY  :'' @ [CR, LF]]"
  using send_next_no_params [of "\<lparr>prefix = None, command = ''AWAY'', params = []\<rparr>" "[''x'']"]
  by simp

subsection \<open>The connection signal of \<open>RxSocket\<close>\<close>

text \<open>What the underlying socket reports.\<close>

datatype socket_event = Connect | Data string | End | Close bool

text \<open>
  \<open>connected$\<close> is a behaviour subject that starts with \<open>false\<close>; the constructor
  registers \<open>socket.once("connect", ...)\<close>, a listener that is removed when it has run
  once and that gives the subject the value \<open>true\<close>.  \<open>armed\<close> says whether the listener
  is still registered.
\<close>

fun connected_emissions :: "bool \<Rightarrow> socket_event list \<Rightarrow> bool list" where
  "connected_emissions armed [] = []"
| "connected_emissions armed (e # es) =
     (if e = Connect \<and> armed then True # connected_emissions False es
      else connected_emissions armed es)"

text \<open>
  What a subscriber that subscribes before the first event (as the client does, in its
  constructor) receives from \<open>connected$\<close>: the current value \<open>false\<close>, then the values
  given to the subject.
\<close>

definition connected_stream :: "socket_event list \<Rightarrow> bool list" where
  "connected_stream events = False # connected_emissions True events"

subsection \<open>Protocol handling (\<open>handleIRCProtocol\<close>)\<close>

definition sendUserAndNick :: "Options \<Rightarrow> string list \<Rightarrow> string list" where
  "sendUserAndNick options written =
     send \<lparr>prefix = None, command = ''NICK'', params = [nick options]\<rparr>
       (send \<lparr>prefix = None, command = ''USER'',
              params = [username options, ''.'', ''.'', realName options]\<rparr> written)"

text \<open>
  The first subscription: \<open>connected$.pipe(filter(x => x))\<close> with \<open>sendUserAndNick\<close> as
  \<open>next\<close>.  \<open>on_connected\<close> is the reaction to one value of the signal,
  \<open>handle_connected\<close> the reaction to a sequence of values.
\<close>

definition on_connected :: "Options \<Rightarrow> bool \<Rightarrow> string list \<Rightarrow> string list" where
  "on_connected options x written = (if x then sendUserAndNick options written else written)"

definition handle_connected :: "Options \<Rightarrow> bool list \<Rightarrow> string list \<Rightarrow> string list" where
  "handle_connected options signals written = fold (on_connected options) signals written"

text \<open>
  The second subscription: the \<open>switch\<close> on the command of every inbound message.
\<close>

definition on_message :: "IRCMessage \<Rightarrow> string list \<Rightarrow> string list" where
  "on_message message written =
     (if command message = ''PING''
      then send \<lparr>prefix = None, command = ''PONG'', params = params message\<rparr> written
      else written)"

text \<open>The two lines of the handshake.\<close>

definition handshake :: "Options \<Rightarrow> string list" where
  "handshake options =
     [send_data \<lparr>prefix = None, command = ''USER'',
                 params = [username options, ''.'', ''.'', realName options]\<rparr>,
      send_data \<lparr>prefix = None, command = ''NICK'', params = [nick options]\<rparr>]"

lemma sendUserAndNick_handshake:
  "sendUserAndNick options written = written @ handshake options"
  by (simp add: sendUserAndNick_def send_def send_next_def write_next_def handshake_def)

lemma handle_connected_each:
  "handle_connected options signals written =
     written @ concat (map (\<lambda>x. if x then handshake options else []) signals)"
proof (induction signals arbitrary: written)
  case Nil
  show ?case by (simp add: handle_connected_def)
next
  case (Cons x xs)
  have "handle_connected options (x # xs) written =
      handle_connected options xs (on_connected options x written)"
    by (simp add: handle_connected_def)
  with Cons [of "on_connected options x written"] show ?case
    by (simp add: on_connected_def sendUserAndNick_handshake)
qed

lemma connected_emissions_disarmed: "connected_emissions False events = []"
  by (induction events) simp_all

lemma connected_emissions_armed:
  "connected_emissions True events = (if Connect \<in> set events then [True] else [])"
  by (induction events) (simp_all add: connected_emissions_disarmed)

lemma connected_stream_once:
  "connected_stream events = (if Connect \<in> set events then [False, True] else [False])"
  by (simp add: connected_stream_def connected_emissions_armed)

text \<open>
  C4: the lifecycle signal is \<open>connected$\<close> of the socket that the client builds for
  itself.  Whatever the socket reports, when the signal turns \<open>true\<close> the core sends one
  \<open>USER\<close> message with the parameters \<open>[username, ".", ".", realName]\<close> and then one
  \<open>NICK\<close> message with the parameter \<open>[nick]\<close>; before that it sends nothing, and
  nothing that the socket reports afterwards (a further \<open>connect\<close> included) sends the
  pair again, since the signal holds \<open>true\<close> at most once.
\<close>

theorem handshake_sent_once:
  "on_connected options True written =
     send \<lparr>prefix = None, command = ''NICK'', params = [nick options]\<rparr>
       (send \<lparr>prefix = None, command = ''USER'',
              params = [username options, ''.'', ''.'', realName options]\<rparr> written)
   \<and> on_connected options False written = written
   \<and> handle_connected options (connected_stream events) written =
       (if Connect \<in> set events then written @ handshake options else written)
   \<and> (Connect \<in> set events \<longrightarrow>
        handle_connected options (connected_stream (events @ later)) written =
          handle_connected options (connected_stream events) written)
   \<and> length (filter (\<lambda>x. x) (connected_stream events)) \<le> 1"
proof -
  have once: "\<And>es. handle_connected options (connected_stream es) written =
      (if Connect \<in> set es then written @ handshake options else written)"
    by (simp add: handle_connected_each connected_stream_once)
  have "Connect \<in> set events \<longrightarrow>
      handle_connected options (connected_stream (events @ later)) written =
        handle_connected options (connected_stream events) written"
    by (simp add: once)
  moreover have "length (filter (\<lambda>x. x) (connected_stream events)) \<le> 1"
    by (simp add: connected_stream_once)
  ultimately show ?thesis
    by (simp add: once on_connected_def sendUserAndNick_def)
qed

text \<open>
  A socket that reports \<open>connect\<close>, then data, then \<open>connect\<close> again, with the options
  of \<open>index.ts\<close>: the signal is \<open>false, true\<close>, the pair is written at the first
  \<open>connect\<close>, and the later reports add nothing.
\<close>

theorem handshake_sent_once_witness:
  "Connect \<in> set [Connect]
   \<and> connected_stream ([Connect] @ [Data ''x'', Connect]) = [False, True]
   \<and> handle_connected
       \<lparr>hostname = ''irc.synirc.net'', username = ''VolteTest'', port = 6667,
        nick = ''VolteTest'', realName = ''foo''\<rparr>
       (connected_stream [Connect]) [] =
       [''USER VolteTest . . :foo'' @ [CR, LF], ''NICK  :VolteTest'' @ [CR, LF]]
   \<and> handle_connected
       \<lparr>hostname = ''irc.synirc.net'', username = ''VolteTest'', port = 6667,
        nick = ''VolteTest'', realName = ''foo''\<rparr>
       (connected_stream ([Connect] @ [Data ''x'', Connect])) [] =
       [''USER VolteTest . . :foo'' @ [CR, LF], ''NICK  :VolteTest'' @ [CR, LF]]"
proof -
  have connects: "Connect \<in> set [Connect]"
    by simp
  have pair: "handshake
       \<lparr>hostname = ''irc.synirc.net'', username = ''VolteTest'', port = 6667,
        nick = ''VolteTest'', realName = ''foo''\<rparr> =
       [''USER VolteTest . . :foo'' @ [CR, LF], ''NICK  :VolteTest'' @ [CR, LF]]"
    by (simp add: handshake_def send_data_params)
  have signal: "connected_stream ([Connect] @ [Data ''x'', Connect]) = [False, True]"
    by (simp add: connected_stream_def)
  from handshake_sent_once
    [of "\<lparr>hostname = ''irc.synirc.net'', username = ''VolteTest'', port = 6667,
          nick = ''VolteTest'', realName = ''foo''\<rparr>" "[]" "[Connect]"
        "[Data ''x'', Connect]"] connects
  have first: "handle_connected
       \<lparr>hostname = ''irc.synirc.net'', username = ''VolteTest'', port = 6667,
        nick = ''VolteTest'', realName = ''foo''\<rparr>
       (connected_stream [Connect]) [] =
       handshake
       \<lparr>hostname = ''irc.synirc.net'', username = ''VolteTest'', port = 6667,
        nick = ''VolteTest'', realName = ''foo''\<rparr>"
    and again: "handle_connected
       \<lparr>hostname = ''irc.synirc.net'', username = ''VolteTest'', port = 6667,
        nick = ''VolteTest'', realName = ''foo''\<rparr>
       (connected_stream ([Connect] @ [Data ''x'', Connect])) [] =
       handle_connected
       \<lparr>hostname = ''irc.synirc.net'', username = ''VolteTest'', port = 6667,
        nick = ''VolteTest'', realName = ''foo''\<rparr>
       (connected_stream [Connect]) []"
    by simp_all
  from first pair have one: "handle_connected
       \<lparr>hostname = ''irc.synirc.net'', username = ''VolteTest'', port = 6667,
        nick = ''VolteTest'', realName = ''foo''\<rparr>
       (connected_stream [Connect]) [] =
       [''USER VolteTest . . :foo'' @ [CR, LF], ''NICK  :VolteTest'' @ [CR, LF]]"
    by (simp only:)
  from again one have two: "handle_connected
       \<lparr>hostname = ''irc.synirc.net'', username = ''VolteTest'', port = 6667,
        nick = ''VolteTest'', realName = ''foo''\<rparr>
       (connected_stream ([Connect] @ [Data ''x'', Connect])) [] =
       [''USER VolteTest . . :foo'' @ [CR, LF], ''NICK  :VolteTest'' @ [CR, LF]]"
    by (simp only:)
  from connects signal one two show ?thesis
    by (intro conjI)
qed

text \<open>
  C7: when a message with the command \<open>PING\<close> arrives, the core sends one message: a
  \<open>PONG\<close> with the parameters of the \<open>PING\<close>, unchanged.  Exactly one string is
  written, the formatted \<open>PONG\<close>, behind what was written before.
\<close>

theorem ping_answered_by_pong:
  "command message = ''PING'' \<Longrightarrow>
     on_message message written =
       send \<lparr>prefix = None, command = ''PONG'', params = params message\<rparr> written
     \<and> on_message message written =
       written @ [send_data \<lparr>prefix = None, command = ''PONG'', params = params message\<rparr>]"
  by (simp add: on_message_def send_def send_next_def write_next_def)

theorem ping_answered_by_pong_witness:
  "command \<lparr>prefix = None, command = ''PING'', params = [''abc'']\<rparr> = ''PING''
   \<and> on_message \<lparr>prefix = None, command = ''PING'', params = [''abc'']\<rparr> [] =
       send \<lparr>prefix = None, command = ''PONG'', params = [''abc'']\<rparr> []
   \<and> on_message \<lparr>prefix = None, command = ''PING'', params = [''abc'']\<rparr> [] =
       [''PONG  :abc'' @ [CR, LF]]"
  using ping_answered_by_pong [of "\<lparr>prefix = None, command = ''PING'', params = [''abc'']\<rparr>" "[]"]
  by (auto simp: send_data_params)

section \<open>The channel view (\<open>RxIRCChannel\<close>)\<close>

datatype js_error = TypeError

text \<open>\<open>array[i]\<close>: \<open>undefined\<close> (here \<open>None\<close>) when \<open>i\<close> is out of range.\<close>

definition element_at :: "'a list \<Rightarrow> nat \<Rightarrow> 'a option" where
  "element_at xs i = (if i < length xs then Some (xs ! i) else None)"

text \<open>
  The predicate given to \<open>filter\<close>.  \<open>&&\<close> evaluates its right operand only when the
  left one holds; \<open>message.params[0].toLowerCase()\<close> raises a \<open>TypeError\<close> when
  \<open>params[0]\<close> is \<open>undefined\<close>.  \<open>String.prototype.toLowerCase\<close> is the engine's
  lower-casing of a string; the view is modelled for any such function, which is the
  first argument.
\<close>

definition channel_test :: "(string \<Rightarrow> string) \<Rightarrow> string \<Rightarrow> IRCMessage \<Rightarrow> js_error + bool" where
  "channel_test toLowerCase channel message =
     (if length (params message) > 0
      then (case element_at (params message) 0 of
              None \<Rightarrow> Inl TypeError
            | Some first \<Rightarrow> Inr (toLowerCase first = toLowerCase channel))
      else Inr False)"

text \<open>
  The operator \<open>filter\<close> on a finite stream: the elements delivered, and the error that
  ended the stream if the predicate raised.
\<close>

fun rx_filter :: "('a \<Rightarrow> js_error + bool) \<Rightarrow> 'a list \<Rightarrow> 'a list \<times> js_error option" where
  "rx_filter test [] = ([], None)"
| "rx_filter test (x # xs) =
     (case test x of
        Inl e \<Rightarrow> ([], Some e)
      | Inr keep \<Rightarrow>
          (let (rest, err) = rx_filter test xs
           in (if keep then x # rest else rest, err)))"

text \<open>The \<open>messages$\<close> of a channel view, as a function of the client's \<open>messages$\<close>.\<close>

definition channel_messages ::
  "(string \<Rightarrow> string) \<Rightarrow> string \<Rightarrow> IRCMessage list \<Rightarrow> IRCMessage list \<times> js_error option" where
  "channel_messages toLowerCase channel inbound =
     rx_filter (channel_test toLowerCase channel) inbound"

text \<open>
  The condition of the specification: the message has at least one parameter, and the
  first one equals the channel name when case is ignored (both lower-cased).
\<close>

definition addressed_to :: "(string \<Rightarrow> string) \<Rightarrow> string \<Rightarrow> IRCMessage \<Rightarrow> bool" where
  "addressed_to toLowerCase channel message =
     (case params message of
        [] \<Rightarrow> False
      | first # others \<Rightarrow> toLowerCase first = toLowerCase channel)"

text \<open>Lower-casing of the ASCII letters, for the examples.\<close>

definition toLowerCase_ascii :: "string \<Rightarrow> string" where
  "toLowerCase_ascii s =
     map (\<lambda>c. if 65 \<le> (of_char c :: nat) \<and> (of_char c :: nat) \<le> 90
              then char_of (of_char c + 32 :: nat) else c) s"

lemma channel_test_addressed:
  "channel_test toLowerCase channel message = Inr (addressed_to toLowerCase channel message)"
  by (cases "params message") (simp_all add: channel_test_def addressed_to_def element_at_def)

lemma rx_filter_total:
  "rx_filter (\<lambda>x. Inr (keep x)) xs = (filter keep xs, None)"
  by (induction xs) simp_all

lemma channel_messages_filter:
  "channel_messages toLowerCase channel inbound =
     (filter (addressed_to toLowerCase channel) inbound, None)"
proof -
  have "channel_test toLowerCase channel = (\<lambda>m. Inr (addressed_to toLowerCase channel m))"
    by (rule ext) (rule channel_test_addressed)
  then show ?thesis
    by (simp add: channel_messages_def rx_filter_total)
qed

text \<open>
  C8: the message stream of a channel view holds, in order, exactly the inbound messages
  that have at least one parameter whose first parameter equals the channel name when
  case is ignored; the predicate never raises, and a message without parameters is never
  in the stream.
\<close>

theorem channel_messages_addressed:
  "channel_messages toLowerCase channel inbound =
     (filter (addressed_to toLowerCase channel) inbound, None)
   \<and> (message \<in> set (fst (channel_messages toLowerCase channel inbound)) \<longleftrightarrow>
        message \<in> set inbound \<and> params message \<noteq> []
        \<and> toLowerCase (hd (params message)) = toLowerCase channel)
   \<and> (params message = [] \<longrightarrow>
        message \<notin> set (fst (channel_messages toLowerCase channel inbound)))"
proof -
  have "addressed_to toLowerCase channel message \<longleftrightarrow>
      params message \<noteq> [] \<and> toLowerCase (hd (params message)) = toLowerCase channel"
    by (cases "params message") (simp_all add: addressed_to_def)
  then show ?thesis
    by (auto simp: channel_messages_filter)
qed

text \<open>
  The view of \<open>#Test\<close> on four messages: to \<open>#test\<close>, without parameters, to
  \<open>#other\<close> and to \<open>#TEST\<close>.  The first and the last are delivered.
\<close>

theorem channel_messages_addressed_witness:
  "channel_messages toLowerCase_ascii ''#Test''
     [\<lparr>prefix = None, command = ''PRIVMSG'', params = [''#test'', ''hi'']\<rparr>,
      \<lparr>prefix = None, command = ''PING'', params = []\<rparr>,
      \<lparr>prefix = None, command = ''PRIVMSG'', params = [''#other'', ''hi'']\<rparr>,
      \<lparr>prefix = None, command = ''JOIN'', params = [''#TEST'']\<rparr>] =
     ([\<lparr>prefix = None, command = ''PRIVMSG'', params = [''#test'', ''hi'']\<rparr>,
       \<lparr>prefix = None, command = ''JOIN'', params = [''#TEST'']\<rparr>], None)
   \<and> params \<lparr>prefix = None, command = ''PING'', params = []\<rparr> = []
   \<and> \<lparr>prefix = None, command = ''PING'', params = []\<rparr> \<notin> set (fst
       (channel_messages toLowerCase_ascii ''#Test''
         [\<lparr>prefix = None, command = ''PRIVMSG'', params = [''#test'', ''hi'']\<rparr>,
          \<lparr>prefix = None, command = ''PING'', params = []\<rparr>,
          \<lparr>prefix = None, command = ''PRIVMSG'', params = [''#other'', ''hi'']\<rparr>,
          \<lparr>prefix = None, command = ''JOIN'', params = [''#TEST'']\<rparr>]))"
proof -
  have computed: "channel_messages toLowerCase_ascii ''#Test''
     [\<lparr>prefix = None, command = ''PRIVMSG'', params = [''#test'', ''hi'']\<rparr>,
      \<lparr>prefix = None, command = ''PING'', params = []\<rparr>,
      \<lparr>prefix = None, command = ''PRIVMSG'', params = [''#other'', ''hi'']\<rparr>,
      \<lparr>prefix = None, command = ''JOIN'', params = [''#TEST'']\<rparr>] =
     ([\<lparr>prefix = None, command = ''PRIVMSG'', params = [''#test'', ''hi'']\<rparr>,
       \<lparr>prefix = None, command = ''JOIN'', params = [''#TEST'']\<rparr>], None)"
    by code_simp
  have excluded: "params \<lparr>prefix = None, command = ''PING'', params = []\<rparr> = [] \<longrightarrow>
      \<lparr>prefix = None, command = ''PING'', params = []\<rparr> \<notin> set (fst
       (channel_messages toLowerCase_ascii ''#Test''
         [\<lparr>prefix = None, command = ''PRIVMSG'', params = [''#test'', ''hi'']\<rparr>,
          \<lparr>prefix = None, command = ''PING'', params = []\<rparr>,
          \<lparr>prefix = None, command = ''PRIVMSG'', params = [''#other'', ''hi'']\<rparr>,
          \<lparr>prefix = None, command = ''JOIN'', params = [''#TEST'']\<rparr>]))"
    by (rule channel_messages_addressed [THEN conjunct2, THEN conjunct2])
  have empty: "params \<lparr>prefix = None, command = ''PING'', params = []\<rparr> = []"
    by simp
  from excluded empty have "\<lparr>prefix = None, command = ''PING'', params = []\<rparr> \<notin> set (fst
       (channel_messages toLowerCase_ascii ''#Test''
         [\<lparr>prefix = None, command = ''PRIVMSG'', params = [''#test'', ''hi'']\<rparr>,
          \<lparr>prefix = None, command = ''PING'', params = []\<rparr>,
          \<lparr>prefix = None, command = ''PRIVMSG'', params = [''#other'', ''hi'']\<rparr>,
          \<lparr>prefix = None, command = ''JOIN'', params = [''#TEST'']\<rparr>]))"
    by (rule mp)
  with computed empty show ?thesis
    by (intro conjI)
qed

end
